theory Spec2Isabelle
  imports Main "HOL-Library.Word"
begin

unbundle bit_operations_syntax

section \<open>Count-Min Sketch (package countminsketch): data model\<close>

text \<open>
  The development follows the matrix variant of the package (the file with
  \<^verbatim>\<open>count [][]uint64\<close>, \<^verbatim>\<open>Merge\<close> and the parameter checks in \<^verbatim>\<open>New\<close>).
  Go's \<^verbatim>\<open>uint\<close> and \<^verbatim>\<open>int\<close> are taken at 64 bits (a 64-bit platform); all
  arithmetic on them wraps, as \<open>64 word\<close> does. A signed \<^verbatim>\<open>int64\<close> is a
  \<open>64 word\<close> read through \<open>sint\<close>. Slices are lists; \<^verbatim>\<open>make\<close> always
  succeeds (memory is not bounded in the model).
\<close>

type_synonym byte = "8 word"
type_synonym uint32 = "32 word"
type_synonym uint64 = "64 word"
type_synonym uint = "64 word"
type_synonym int64 = "64 word"

text \<open>
  Error values (\<^verbatim>\<open>errors.New\<close>, \<^verbatim>\<open>fmt.Errorf\<close> with its argument,
  \<^verbatim>\<open>io.EOF\<close>, \<^verbatim>\<open>io.ErrUnexpectedEOF\<close>, an error of \<^verbatim>\<open>json.Unmarshal\<close>) and
  run-time panics are kept apart, as Go keeps them apart.
\<close>

datatype error =
    Error string
  | Errorf string uint
  | EOF
  | ErrUnexpectedEOF
  | UnmarshalError string

datatype panic = IndexOutOfRange | DivideByZero | NilPointer

text \<open>
  \<^verbatim>\<open>type CountMinSketch struct { d uint; w uint; count [][]uint64; hasher hash.Hash64 }\<close>.
  The hasher is the 64-bit FNV-1 state of \<^verbatim>\<open>hash/fnv\<close>; it is part of the
  struct and is written by every call that hashes a key.
\<close>

record CountMinSketch =
  d :: uint
  w :: uint
  count :: "uint64 list list"
  hasher :: uint64

text \<open>\<^verbatim>\<open>type CountMinSketchJSON struct { D uint; W uint; Count [][]uint64 }\<close>\<close>

record CountMinSketchJSON =
  D :: uint
  W :: uint
  Count :: "uint64 list list"

subsection \<open>Iteration that may panic\<close>

text \<open>
  A counted \<^verbatim>\<open>for\<close> loop whose body may panic: the body runs on each index in
  turn and the first panic ends the loop.
\<close>

fun for_each :: "'a list \<Rightarrow> ('a \<Rightarrow> 'st \<Rightarrow> panic + 'st) \<Rightarrow> 'st \<Rightarrow> panic + 'st" where
  "for_each [] body st = Inr st"
| "for_each (i # is) body st =
     (case body i st of Inl p \<Rightarrow> Inl p | Inr st' \<Rightarrow> for_each is body st')"

subsection \<open>hash/fnv (64-bit FNV-1) and encoding/binary (big endian)\<close>

text \<open>
  The standard library pieces the package calls. \<^verbatim>\<open>fnv.New64()\<close> is FNV-1:
  the state starts at the offset basis; \<^verbatim>\<open>Write\<close> multiplies by the prime and
  then xors the byte in; \<^verbatim>\<open>Sum(nil)\<close> is the state as 8 big-endian bytes.
\<close>

definition offset64 :: uint64 where
  "offset64 = 14695981039346656037"

definition prime64 :: uint64 where
  "prime64 = 1099511628211"

definition fnv_New64 :: uint64 where
  "fnv_New64 = offset64"

definition fnv_Reset :: "uint64 \<Rightarrow> uint64" where
  "fnv_Reset h = offset64"

definition fnv_Write :: "uint64 \<Rightarrow> byte list \<Rightarrow> uint64" where
  "fnv_Write h key = foldl (\<lambda>h c. (h * prime64) XOR ucast c) h key"

definition PutUint64 :: "uint64 \<Rightarrow> byte list" where
  "PutUint64 v =
     [ucast (drop_bit 56 v), ucast (drop_bit 48 v), ucast (drop_bit 40 v),
      ucast (drop_bit 32 v), ucast (drop_bit 24 v), ucast (drop_bit 16 v),
      ucast (drop_bit 8 v), ucast v]"

definition Uint64 :: "byte list \<Rightarrow> uint64" where
  "Uint64 b =
     ucast (b ! 7) OR push_bit 8 (ucast (b ! 6)) OR push_bit 16 (ucast (b ! 5)) OR
     push_bit 24 (ucast (b ! 4)) OR push_bit 32 (ucast (b ! 3)) OR
     push_bit 40 (ucast (b ! 2)) OR push_bit 48 (ucast (b ! 1)) OR
     push_bit 56 (ucast (b ! 0))"

definition Uint32 :: "byte list \<Rightarrow> uint32" where
  "Uint32 b =
     ucast (b ! 3) OR push_bit 8 (ucast (b ! 2)) OR push_bit 16 (ucast (b ! 1)) OR
     push_bit 24 (ucast (b ! 0))"

definition fnv_Sum :: "uint64 \<Rightarrow> byte list" where
  "fnv_Sum h = PutUint64 h"

subsection \<open>Construction\<close>

text \<open>
  \<^verbatim>\<open>
  func New(d uint, w uint) (s *CountMinSketch, err error) {
      if d <= 0 || w <= 0 {
          return nil, errors.New("countminsketch: values of d and w should both be greater than 0")
      }
      s = &CountMinSketch{d: d, w: w, hasher: fnv.New64()}
      s.count = make([][]uint64, d)
      for r := uint(0); r < d; r++ {
          s.count[r] = make([]uint64, w)
      }
      return s, nil
  }
  \<close>
  The result is the pair (sketch pointer or nil, error or nil).
\<close>

definition New :: "uint \<Rightarrow> uint \<Rightarrow> CountMinSketch option \<times> error option" where
  "New d0 w0 =
     (if d0 \<le> 0 \<or> w0 \<le> 0 then
        (None, Some (Error ''countminsketch: values of d and w should both be greater than 0''))
      else
        (Some \<lparr>d = d0, w = w0,
               count = foldl (\<lambda>cnt r. cnt[r := replicate (unat w0) 0])
                         (replicate (unat d0) []) [0..<unat d0],
               hasher = fnv_New64\<rparr>,
         None))"

subsection \<open>Hash locations\<close>

text \<open>
  \<^verbatim>\<open>
  func (s *CountMinSketch) baseHashes(key []byte) (a uint32, b uint32) {
      s.hasher.Reset()
      s.hasher.Write(key)
      sum := s.hasher.Sum(nil)
      upper := sum[0:4]
      lower := sum[4:8]
      a = binary.BigEndian.Uint32(lower)
      b = binary.BigEndian.Uint32(upper)
      return
  }
  \<close>
  The hasher keeps the absorbed state, so the sketch after the call is returned
  with the two hashes.
\<close>

definition baseHashes :: "CountMinSketch \<Rightarrow> byte list \<Rightarrow> (uint32 \<times> uint32) \<times> CountMinSketch" where
  "baseHashes s key =
     (let h = fnv_Write (fnv_Reset (hasher s)) key;
          sum = fnv_Sum h;
          upper = take 4 sum;
          lower = take 4 (drop 4 sum)
      in ((Uint32 lower, Uint32 upper), s\<lparr>hasher := h\<rparr>))"

text \<open>
  \<^verbatim>\<open>
  func (s *CountMinSketch) locations(key []byte) (locs []uint) {
      locs = make([]uint, s.d)
      a, b := s.baseHashes(key)
      ua := uint(a)
      ub := uint(b)
      for r := uint(0); r < s.d; r++ {
          locs[r] = (ua + ub*r) % s.w
      }
      return
  }
  \<close>
  The remainder panics when \<open>s.w\<close> is zero.
\<close>

definition locations :: "CountMinSketch \<Rightarrow> byte list \<Rightarrow> panic + (uint list \<times> CountMinSketch)" where
  "locations s key =
     (case baseHashes s key of
        ((a, b), s') \<Rightarrow>
          (let ua = (ucast a :: uint); ub = (ucast b :: uint) in
           case for_each [0..<unat (d s')]
                  (\<lambda>r locs. if w s' = 0 then Inl DivideByZero
                             else Inr (locs[r := (ua + ub * of_nat r) mod w s']))
                  (replicate (unat (d s')) 0) of
             Inl p \<Rightarrow> Inl p
           | Inr locs \<Rightarrow> Inr (locs, s')))"

subsection \<open>Update and Estimate\<close>

text \<open>
  \<^verbatim>\<open>
  func (s *CountMinSketch) Update(key []byte, count uint64) {
      for r, c := range s.locations(key) {
          s.count[r][c] += count
      }
  }
  \<close>
  Indexing outside a slice panics.
\<close>

definition Update :: "CountMinSketch \<Rightarrow> byte list \<Rightarrow> uint64 \<Rightarrow> panic + CountMinSketch" where
  "Update s key cnt =
     (case locations s key of
        Inl p \<Rightarrow> Inl p
      | Inr (locs, s1) \<Rightarrow>
          for_each [0..<length locs]
            (\<lambda>r s. let c = unat (locs ! r) in
               if r < length (count s) \<and> c < length (count s ! r) then
                 Inr (s\<lparr>count := (count s)[r := (count s ! r)[c := count s ! r ! c + cnt]]\<rparr>)
               else Inl IndexOutOfRange)
            s1)"

text \<open>
  \<^verbatim>\<open>
  func (s *CountMinSketch) Estimate(key []byte) uint64 {
      var min uint64
      for r, c := range s.locations(key) {
          if r == 0 || s.count[r][c] < min {
              min = s.count[r][c]
          }
      }
      return min
  }
  \<close>
  The running minimum is \<open>m\<close> in the model. The cell is read in every
  iteration (in the assignment when \<open>r = 0\<close>, in the comparison otherwise).
  The sketch returned with the value is the receiver after the call.
\<close>

definition Estimate :: "CountMinSketch \<Rightarrow> byte list \<Rightarrow> panic + (uint64 \<times> CountMinSketch)" where
  "Estimate s key =
     (case locations s key of
        Inl p \<Rightarrow> Inl p
      | Inr (locs, s1) \<Rightarrow>
          (case for_each [0..<length locs]
                  (\<lambda>r m. let c = unat (locs ! r) in
                     if r < length (count s1) \<and> c < length (count s1 ! r) then
                       Inr (if r = 0 \<or> count s1 ! r ! c < m then count s1 ! r ! c else m)
                     else Inl IndexOutOfRange)
                  0 of
             Inl p \<Rightarrow> Inl p
           | Inr m \<Rightarrow> Inr (m, s1)))"

subsection \<open>Merge\<close>

text \<open>
  \<^verbatim>\<open>
  func (s *CountMinSketch) Merge(other *CountMinSketch) error {
      if s.d != other.d {
          return errors.New("countminsketch: matrix depth must match")
      }
      if s.w != other.w {
          return errors.New("countminsketch: matrix width must match")
      }
      for i := uint(0); i < s.d; i++ {
          for j := uint(0); j < s.w; j++ {
              s.count[i][j] += other.count[i][j]
          }
      }
      return nil
  }
  \<close>
  \<^verbatim>\<open>Merge\<close> takes two pointers, which may be the same sketch, so it is modelled
  on a heap of sketches: \<open>h p\<close> is the struct behind pointer \<open>p\<close>, \<open>None\<close> for
  nil. Each struct owns its rows (every constructor and decoder of the package
  allocates fresh ones). The bounds \<^verbatim>\<open>s.d\<close> and \<^verbatim>\<open>s.w\<close> are not written
  during the iteration, so they are read once.
\<close>

type_synonym ref = nat
type_synonym heap = "ref \<Rightarrow> CountMinSketch option"

text \<open>\<^verbatim>\<open>s.count[i][j] += other.count[i][j]\<close>\<close>

definition Merge_cell :: "ref \<Rightarrow> ref \<Rightarrow> nat \<Rightarrow> nat \<Rightarrow> heap \<Rightarrow> panic + heap" where
  "Merge_cell s other i j h =
     (case (h s, h other) of
        (Some S, Some T) \<Rightarrow>
          if i < length (count S) \<and> j < length (count S ! i) \<and>
             i < length (count T) \<and> j < length (count T ! i) then
            Inr (h(s \<mapsto> S\<lparr>count := (count S)[i := (count S ! i)[j := count S ! i ! j + count T ! i ! j]]\<rparr>))
          else Inl IndexOutOfRange
      | _ \<Rightarrow> Inl NilPointer)"

definition Merge :: "ref \<Rightarrow> ref \<Rightarrow> heap \<Rightarrow> panic + (error option \<times> heap)" where
  "Merge s other h =
     (case (h s, h other) of
        (Some S, Some T) \<Rightarrow>
          if d S \<noteq> d T then
            Inr (Some (Error ''countminsketch: matrix depth must match''), h)
          else if w S \<noteq> w T then
            Inr (Some (Error ''countminsketch: matrix width must match''), h)
          else
            (case for_each [0..<unat (d S)]
                    (\<lambda>i. for_each [0..<unat (w S)] (\<lambda>j. Merge_cell s other i j)) h of
               Inl p \<Rightarrow> Inl p
             | Inr h' \<Rightarrow> Inr (None, h'))
      | _ \<Rightarrow> Inl NilPointer)"

subsection \<open>JSON decoding\<close>

text \<open>
  \<^verbatim>\<open>
  func (s *CountMinSketch) UnmarshalJSON(data []byte) error {
      var j CountMinSketchJSON
      err := json.Unmarshal(data, &j)
      if err != nil {
          return err
      }
      s.d = j.D
      s.w = j.W
      s.count = j.Count
      s.hasher = fnv.New64()
      return nil
  }
  \<close>
  The second argument of the model is what \<^verbatim>\<open>json.Unmarshal(data, &j)\<close> gave
  for the payload: an error, or the decoded \<^verbatim>\<open>CountMinSketchJSON\<close>.
\<close>

definition UnmarshalJSON :: "CountMinSketch \<Rightarrow> error + CountMinSketchJSON \<Rightarrow> error option \<times> CountMinSketch" where
  "UnmarshalJSON s decoded =
     (case decoded of
        Inl err \<Rightarrow> (Some err, s)
      | Inr j \<Rightarrow> (None, s\<lparr>d := D j, w := W j, count := Count j, hasher := fnv_New64\<rparr>))"

subsection \<open>Binary encoding\<close>

text \<open>
  \<^verbatim>\<open>
  func (s *CountMinSketch) WriteTo(stream io.Writer) (int64, error) {
      err := binary.Write(stream, binary.BigEndian, uint64(s.d))
      if err != nil {
          return 0, err
      }
      err = binary.Write(stream, binary.BigEndian, uint64(s.w))
      if err != nil {
          return 0, err
      }
      C := make([]uint64, s.w)
      for r := uint(0); r < s.d; r++ {
          for c := uint(0); c < s.w; c++ {
              C[c] = s.count[r][c]
          }
          err = binary.Write(stream, binary.BigEndian, C)
          if err != nil {
              return 0, err
          }
      }
      return int64(2*binary.Size(uint64(0)) + int(s.d)*binary.Size(C)), err
  }
  \<close>
  \<^verbatim>\<open>WriteTo\<close> on an in-memory stream (a \<^verbatim>\<open>bytes.Buffer\<close>, as \<^verbatim>\<open>GobEncode\<close>
  uses it): a write appends and cannot fail. \<^verbatim>\<open>binary.Write\<close> of a
  \<^verbatim>\<open>uint64\<close> appends its 8 big-endian bytes, of a \<^verbatim>\<open>[]uint64\<close> those of each
  element in order. \<^verbatim>\<open>binary.Size\<close> of a \<^verbatim>\<open>uint64\<close> is 8, of a \<^verbatim>\<open>[]uint64\<close>
  8 times its length. The buffer \<open>C\<close> has \<open>s.w\<close> elements and the column index
  stays below \<open>s.w\<close>, so only \<^verbatim>\<open>s.count[r][c]\<close> can be out of range.
\<close>

definition WriteTo :: "CountMinSketch \<Rightarrow> byte list \<Rightarrow> panic + ((int64 \<times> error option) \<times> byte list)" where
  "WriteTo s stream =
     (let stream1 = stream @ PutUint64 (d s);
          stream2 = stream1 @ PutUint64 (w s);
          C = replicate (unat (w s)) (0 :: uint64)
      in case for_each [0..<unat (d s)]
                (\<lambda>r (C, stream).
                   case for_each [0..<unat (w s)]
                          (\<lambda>c C. if r < length (count s) \<and> c < length (count s ! r)
                                  then Inr (C[c := count s ! r ! c])
                                  else Inl IndexOutOfRange)
                          C of
                     Inl p \<Rightarrow> Inl p
                   | Inr C' \<Rightarrow> Inr (C', stream @ concat (map PutUint64 C')))
                (C, stream2) of
           Inl p \<Rightarrow> Inl p
         | Inr (C', stream') \<Rightarrow> Inr ((2 * 8 + d s * (8 * of_nat (length C')), None), stream'))"

text \<open>
  Reading from an in-memory stream, the list of the bytes not yet read.
  \<^verbatim>\<open>io.ReadFull\<close> of \<open>n\<close> bytes: nothing to do for \<open>n = 0\<close>; \<^verbatim>\<open>io.EOF\<close> when no
  byte is left; \<^verbatim>\<open>io.ErrUnexpectedEOF\<close> (the stream consumed) when fewer than
  \<open>n\<close> are left.
\<close>

definition io_ReadFull :: "nat \<Rightarrow> byte list \<Rightarrow> (error + byte list) \<times> byte list" where
  "io_ReadFull n stream =
     (if n = 0 then (Inr [], stream)
      else if stream = [] then (Inl EOF, stream)
      else if length stream < n then (Inl ErrUnexpectedEOF, [])
      else (Inr (take n stream), drop n stream))"

fun decode_uint64s :: "nat \<Rightarrow> byte list \<Rightarrow> uint64 list" where
  "decode_uint64s 0 bs = []"
| "decode_uint64s (Suc n) bs = Uint64 (take 8 bs) # decode_uint64s n (drop 8 bs)"

text \<open>\<^verbatim>\<open>binary.Read(stream, binary.BigEndian, &d)\<close> for a \<^verbatim>\<open>uint64\<close>\<close>

definition binary_Read_uint64 :: "byte list \<Rightarrow> (error + uint64) \<times> byte list" where
  "binary_Read_uint64 stream =
     (case io_ReadFull 8 stream of
        (Inl e, rest) \<Rightarrow> (Inl e, rest)
      | (Inr bs, rest) \<Rightarrow> (Inr (Uint64 bs), rest))"

text \<open>\<^verbatim>\<open>binary.Read(stream, binary.BigEndian, &C)\<close> for a \<^verbatim>\<open>[]uint64\<close> of \<open>n\<close> elements\<close>

definition binary_Read_slice :: "nat \<Rightarrow> byte list \<Rightarrow> (error + uint64 list) \<times> byte list" where
  "binary_Read_slice n stream =
     (case io_ReadFull (8 * n) stream of
        (Inl e, rest) \<Rightarrow> (Inl e, rest)
      | (Inr bs, rest) \<Rightarrow> (Inr (decode_uint64s n bs), rest))"

text \<open>
  \<^verbatim>\<open>
  func (s *CountMinSketch) ReadFrom(stream io.Reader) (int64, error) {
      var d, w uint64
      err := binary.Read(stream, binary.BigEndian, &d)
      if err != nil {
          return 0, err
      }
      err = binary.Read(stream, binary.BigEndian, &w)
      if err != nil {
          return 0, err
      }
      s.d = uint(d)
      s.w = uint(w)
      s.count = make([][]uint64, s.d)
      for r := uint(0); r < s.d; r++ {
          s.count[r] = make([]uint64, w)
      }
      C := make([]uint64, s.w)
      for r := uint(0); r < s.d; r++ {
          err = binary.Read(stream, binary.BigEndian, &C)
          if err != nil {
              return 0, err
          }
          for c := uint(0); c < s.w; c++ {
              s.count[r][c] = C[c]
          }
      }
      s.hasher = fnv.New64()
      return int64(2*binary.Size(uint64(0)) + int(s.d)*binary.Size(C)), nil
  }
  \<close>
  The second iteration over the rows is a function of its own: read \<open>C\<close>,
  return the error if there is one (the sketch stays as it is at that moment),
  else copy \<open>C\<close> into row \<open>r\<close> and go on.
  The result of \<^verbatim>\<open>ReadFrom\<close> is the returned pair, the receiver after the call
  and the rest of the stream.
\<close>

fun ReadFrom_rows :: "nat list \<Rightarrow> CountMinSketch \<Rightarrow> uint64 list \<Rightarrow> byte list \<Rightarrow>
    panic + (error option \<times> CountMinSketch \<times> byte list)" where
  "ReadFrom_rows [] s C stream = Inr (None, s, stream)"
| "ReadFrom_rows (r # rs) s C stream =
     (case binary_Read_slice (length C) stream of
        (Inl err, rest) \<Rightarrow> Inr (Some err, s, rest)
      | (Inr C', rest) \<Rightarrow>
          (case for_each [0..<unat (w s)]
                  (\<lambda>c s. if r < length (count s) \<and> c < length (count s ! r) \<and> c < length C'
                          then Inr (s\<lparr>count := (count s)[r := (count s ! r)[c := C' ! c]]\<rparr>)
                          else Inl IndexOutOfRange)
                  s of
             Inl p \<Rightarrow> Inl p
           | Inr s' \<Rightarrow> ReadFrom_rows rs s' C' rest))"

definition ReadFrom :: "CountMinSketch \<Rightarrow> byte list \<Rightarrow>
    panic + ((int64 \<times> error option) \<times> CountMinSketch \<times> byte list)" where
  "ReadFrom s stream =
     (case binary_Read_uint64 stream of
        (Inl err, rest) \<Rightarrow> Inr ((0, Some err), s, rest)
      | (Inr d0, rest1) \<Rightarrow>
          (case binary_Read_uint64 rest1 of
             (Inl err, rest) \<Rightarrow> Inr ((0, Some err), s, rest)
           | (Inr w0, rest2) \<Rightarrow>
               (let s1 = s\<lparr>d := d0, w := w0\<rparr>;
                    s2 = s1\<lparr>count := foldl (\<lambda>cnt r. cnt[r := replicate (unat w0) 0])
                                        (replicate (unat (d s1)) []) [0..<unat (d s1)]\<rparr>;
                    C = replicate (unat (w s2)) (0 :: uint64)
                in case ReadFrom_rows [0..<unat (d s2)] s2 C rest2 of
                     Inl p \<Rightarrow> Inl p
                   | Inr (Some err, s3, rest) \<Rightarrow> Inr ((0, Some err), s3, rest)
                   | Inr (None, s3, rest) \<Rightarrow>
                       Inr ((2 * 8 + d s3 * (8 * of_nat (length C)), None),
                            s3\<lparr>hasher := fnv_New64\<rparr>, rest))))"

subsection \<open>The flat-array variant of the constructor\<close>

text \<open>
  The other source file of the package keeps the counters in one slice
  (\<^verbatim>\<open>count []uint\<close>). Its constructor:
  \<^verbatim>\<open>
  func New(d uint, w uint) (s *CountMinSketch, err error) {
      if int32(d*w) < 0 || int32(d*w) > int32(^uint32(0)>>1) {
          return nil, fmt.Errorf("d*w (%d) too large, out of range", d*w)
      }
      if int32(d*w) > 536870912 {
          return nil, fmt.Errorf("d*w (%d) too large, it would be out of memory", d*w)
      }
      s = &CountMinSketch{d: d, w: w, count: make([]uint, int32(d*w)), hasher: fnv.New64()}
      return s, err
  }
  \<close>
  It has no check for zero. The conversion \<^verbatim>\<open>int32(d*w)\<close> keeps the low 32
  bits of the product, read as a signed number.
\<close>

record CountMinSketch_flat =
  d_flat :: uint
  w_flat :: uint
  count_flat :: "uint list"
  hasher_flat :: uint64

definition New_flat :: "uint \<Rightarrow> uint \<Rightarrow> CountMinSketch_flat option \<times> error option" where
  "New_flat d0 w0 =
     (let dw32 = (ucast (d0 * w0) :: 32 word) in
      if sint dw32 < 0 \<or> sint dw32 > sint (ucast (drop_bit 1 (NOT (0 :: 32 word))) :: 32 word) then
        (None, Some (Errorf ''d*w (%d) too large, out of range'' (d0 * w0)))
      else if sint dw32 > 536870912 then
        (None, Some (Errorf ''d*w (%d) too large, it would be out of memory'' (d0 * w0)))
      else
        (Some \<lparr>d_flat = d0, w_flat = w0,
               count_flat = replicate (nat (sint dw32)) 0,
               hasher_flat = fnv_New64\<rparr>,
         None))"

section \<open>Notions used in the statements\<close>

text \<open>
  The shape invariant of the data model: the counter matrix has \<open>d\<close> rows and
  every row has \<open>w\<close> cells, \<open>d * w\<close> cells in all.
\<close>

definition shape_ok :: "CountMinSketch \<Rightarrow> bool" where
  "shape_ok s \<longleftrightarrow> length (count s) = unat (d s) \<and> (\<forall>row \<in> set (count s). length row = unat (w s))"

text \<open>The bucket of a key in row \<open>r\<close>, from the two base hashes.\<close>

definition location :: "CountMinSketch \<Rightarrow> byte list \<Rightarrow> nat \<Rightarrow> uint" where
  "location s key r =
     (case baseHashes s key of
        ((a, b), _) \<Rightarrow> ((ucast a :: uint) + (ucast b :: uint) * of_nat r) mod w s)"

text \<open>The counter of a key in row \<open>r\<close>.\<close>

definition cell :: "CountMinSketch \<Rightarrow> byte list \<Rightarrow> nat \<Rightarrow> uint64" where
  "cell s key r = count s ! r ! unat (location s key r)"

text \<open>The value of a byte string read as a big-endian unsigned number.\<close>

definition be_value :: "byte list \<Rightarrow> nat" where
  "be_value bs = foldl (\<lambda>acc b. 256 * acc + unat b) 0 bs"

text \<open>
  The binary wire format in the specification's words: the depth, the width,
  then the counters row by row, each as 8 bytes.
\<close>

definition wire_format :: "CountMinSketch \<Rightarrow> byte list" where
  "wire_format s = PutUint64 (d s) @ PutUint64 (w s) @ concat (map PutUint64 (concat (count s)))"

subsection \<open>Example states\<close>

definition sketch_2x2 :: CountMinSketch where
  "sketch_2x2 = \<lparr>d = 2, w = 2, count = [[1, 2], [3, 258]], hasher = offset64\<rparr>"

definition sketch_2x2_other :: CountMinSketch where
  "sketch_2x2_other = \<lparr>d = 2, w = 2, count = [[10, 20], [30, 40]], hasher = offset64\<rparr>"

definition sketch_3x2 :: CountMinSketch where
  "sketch_3x2 = \<lparr>d = 3, w = 2, count = [[0, 0], [0, 0], [0, 0]], hasher = offset64\<rparr>"

definition two_sketches :: heap where
  "two_sketches = (\<lambda>p. if p = 0 then Some sketch_2x2 else if p = 1 then Some sketch_2x2_other else None)"

definition mismatched_sketches :: heap where
  "mismatched_sketches = (\<lambda>p. if p = 0 then Some sketch_2x2 else if p = 1 then Some sketch_3x2 else None)"

text \<open>A 1 x 1 sketch whose only counter holds the largest \<^verbatim>\<open>uint64\<close>.\<close>

definition sketch_full :: CountMinSketch where
  "sketch_full = \<lparr>d = 1, w = 1, count = [[0xFFFFFFFFFFFFFFFF]], hasher = fnv_Write offset64 [0x61]\<rparr>"

definition sketch_1x1 :: CountMinSketch where
  "sketch_1x1 = \<lparr>d = 1, w = 1, count = [[0]], hasher = offset64\<rparr>"




section \<open>Iteration, allocation and hash locations\<close>

lemma for_each_append:
  "for_each (xs @ ys) body st =
     (case for_each xs body st of Inl p \<Rightarrow> Inl p | Inr st' \<Rightarrow> for_each ys body st')"
  by (induction xs arbitrary: st) (auto split: sum.splits)

lemma for_each_upt_inv:
  assumes "P 0 st0"
    and "\<And>k st. k < n \<Longrightarrow> P k st \<Longrightarrow> \<exists>st'. body k st = Inr st' \<and> P (Suc k) st'"
  shows "\<exists>st'. for_each [0..<n] body st0 = Inr st' \<and> P n st'"
  using assms(2)
proof (induction n)
  case 0
  show ?case using assms(1) by simp
next
  case (Suc n)
  then obtain st1 where 1: "for_each [0..<n] body st0 = Inr st1" "P n st1"
    by (metis less_Suc_eq)
  from Suc.prems[of n st1] 1 obtain st2 where "body n st1 = Inr st2" "P (Suc n) st2"
    by auto
  with 1 show ?case by (simp add: for_each_append)
qed

lemma alloc_rows_prefix:
  "k \<le> length xs \<Longrightarrow>
   foldl (\<lambda>cnt r. cnt[r := v]) xs [0..<k] = replicate k v @ drop k xs"
proof (induction k)
  case 0
  show ?case by simp
next
  case (Suc k)
  then have "k < length xs" by simp
  then have "(replicate k v @ drop k xs)[k := v] = replicate (Suc k) v @ drop (Suc k) xs"
    by (intro nth_equalityI) (auto simp: nth_list_update nth_append nth_Cons' less_Suc_eq)
  with Suc show ?case by simp
qed

lemma alloc_rows:
  "foldl (\<lambda>cnt r. cnt[r := v]) (replicate n []) [0..<n] = replicate n v"
  by (simp add: alloc_rows_prefix)

lemma baseHashes_snd: "snd (baseHashes s key) = s\<lparr>hasher := fnv_Write offset64 key\<rparr>"
  by (simp add: baseHashes_def Let_def fnv_Reset_def)

lemma locations_eq:
  assumes "w s \<noteq> 0"
  shows "locations s key =
         Inr (map (location s key) [0..<unat (d s)], s\<lparr>hasher := fnv_Write offset64 key\<rparr>)"
proof -
  obtain a b s' where bh: "baseHashes s key = ((a, b), s')"
    by (metis prod.exhaust)
  have s': "s' = s\<lparr>hasher := fnv_Write offset64 key\<rparr>"
    using baseHashes_snd[of s key] bh by simp
  have dw: "d s' = d s" "w s' = w s"
    by (simp_all add: s')
  let ?n = "unat (d s')"
  let ?f = "\<lambda>r. ((ucast a :: uint) + (ucast b :: uint) * of_nat r) mod w s'"
  let ?body = "\<lambda>r locs. if w s' = 0 then Inl DivideByZero else Inr (locs[r := ?f r])"
  let ?P = "\<lambda>k (locs :: uint list). length locs = ?n \<and> (\<forall>r<k. locs ! r = ?f r)"
  have "\<exists>locs. for_each [0..<?n] ?body (replicate ?n 0) = Inr locs \<and> ?P ?n locs"
  proof (rule for_each_upt_inv[where P = ?P])
    show "?P 0 (replicate ?n 0)" by simp
  next
    fix k locs
    assume "k < ?n" "?P k locs"
    then show "\<exists>st'. ?body k locs = Inr st' \<and> ?P (Suc k) st'"
      using assms by (auto simp: dw nth_list_update less_Suc_eq)
  qed
  then obtain locs where l: "for_each [0..<?n] ?body (replicate ?n 0) = Inr locs" "?P ?n locs"
    by blast
  have 1: "locations s key = Inr (locs, s')"
    unfolding locations_def bh using l(1) by (simp add: Let_def)
  have "locs = map (location s key) [0..<unat (d s)]"
    using l(2) by (intro nth_equalityI) (auto simp: location_def bh dw)
  with 1 show ?thesis
    by (simp add: s')
qed

lemma location_less:
  assumes "w s \<noteq> 0"
  shows "unat (location s key r) < unat (w s)"
proof -
  have "0 < w s" using assms by (simp add: word_greater_zero_iff)
  then have "location s key r < w s"
    by (auto simp: location_def word_mod_less_divisor split: prod.splits)
  then show ?thesis by (simp add: word_less_nat_alt)
qed

lemma location_cong: "w s' = w s \<Longrightarrow> location s' key r = location s key r"
  by (simp add: location_def baseHashes_def Let_def fnv_Reset_def)

lemma shape_ok_row: "shape_ok s \<Longrightarrow> r < unat (d s) \<Longrightarrow> length (count s ! r) = unat (w s)"
  by (simp add: shape_ok_def)

lemma word_ge1: "(1 \<le> (x :: 'a::len word)) = (x \<noteq> 0)"
  by (simp add: word_le_nat_alt unat_eq_0 Suc_le_eq unat_gt_0)

section \<open>Update and Estimate\<close>

lemma Update_ok:
  assumes sh: "shape_ok s" and w0: "w s \<noteq> 0"
  shows "\<exists>s'. Update s key cnt = Inr s' \<and> d s' = d s \<and> w s' = w s \<and>
           hasher s' = fnv_Write offset64 key \<and> length (count s') = length (count s) \<and>
           (\<forall>r < unat (d s). count s' ! r =
               (count s ! r)[unat (location s key r) := cell s key r + cnt])"
proof -
  let ?n = "unat (d s)"
  let ?h = "fnv_Write offset64 key"
  let ?locs = "map (location s key) [0..<?n]"
  let ?new = "\<lambda>r. (count s ! r)[unat (location s key r) := cell s key r + cnt]"
  let ?body = "\<lambda>r s. let c = unat (?locs ! r) in
               if r < length (count s) \<and> c < length (count s ! r) then
                 Inr (s\<lparr>count := (count s)[r := (count s ! r)[c := count s ! r ! c + cnt]]\<rparr>)
               else Inl IndexOutOfRange"
  let ?P = "\<lambda>k st. d st = d s \<and> w st = w s \<and> hasher st = ?h \<and> length (count st) = ?n \<and>
               (\<forall>r<?n. count st ! r = (if r < k then ?new r else count s ! r))"
  have len: "length (count s) = ?n" using sh by (simp add: shape_ok_def)
  have "\<exists>st'. for_each [0..<?n] ?body (s\<lparr>hasher := ?h\<rparr>) = Inr st' \<and> ?P ?n st'"
  proof (rule for_each_upt_inv[where P = ?P])
    show "?P 0 (s\<lparr>hasher := ?h\<rparr>)" using len by simp
  next
    fix k st
    assume k: "k < ?n" and P: "?P k st"
    have row: "count st ! k = count s ! k" using k P by simp
    have c: "unat (location s key k) < length (count s ! k)"
      using location_less[OF w0] shape_ok_row[OF sh k] by simp
    have "?body k st = Inr (st\<lparr>count := (count st)[k := ?new k]\<rparr>)"
      using k P c by (simp add: Let_def row cell_def)
    moreover have "?P (Suc k) (st\<lparr>count := (count st)[k := ?new k]\<rparr>)"
      using k P by (auto simp: nth_list_update less_Suc_eq)
    ultimately show "\<exists>st'. ?body k st = Inr st' \<and> ?P (Suc k) st'"
      by blast
  qed
  then obtain st' where 1: "for_each [0..<?n] ?body (s\<lparr>hasher := ?h\<rparr>) = Inr st'" and 2: "?P ?n st'"
    by blast
  have "Update s key cnt = Inr st'"
    using 1 by (simp add: Update_def locations_eq[OF w0])
  with 2 len show ?thesis by simp
qed

lemma Min_upt_Suc:
  "0 < k \<Longrightarrow> Min (f ` {0..<Suc k}) = min (f k) (Min (f ` {0..<k}))"
  by (simp add: atLeast0_lessThan_Suc)

lemma Estimate_eq:
  assumes sh: "shape_ok s" and w0: "w s \<noteq> 0"
  shows "Estimate s key =
         Inr (if d s = 0 then 0 else Min (cell s key ` {0..<unat (d s)}),
              s\<lparr>hasher := fnv_Write offset64 key\<rparr>)"
proof -
  let ?n = "unat (d s)"
  let ?h = "fnv_Write offset64 key"
  let ?s1 = "s\<lparr>hasher := ?h\<rparr>"
  let ?locs = "map (location s key) [0..<?n]"
  let ?body = "\<lambda>r m. let c = unat (?locs ! r) in
                 if r < length (count ?s1) \<and> c < length (count ?s1 ! r) then
                   Inr (if r = 0 \<or> count ?s1 ! r ! c < m then count ?s1 ! r ! c else m)
                 else Inl IndexOutOfRange"
  let ?P = "\<lambda>k (m :: uint64). m = (if k = 0 then 0 else Min (cell s key ` {0..<k}))"
  have len: "length (count s) = ?n" using sh by (simp add: shape_ok_def)
  have "\<exists>m. for_each [0..<?n] ?body 0 = Inr m \<and> ?P ?n m"
  proof (rule for_each_upt_inv[where P = ?P])
    show "?P 0 0" by simp
  next
    fix k m
    assume k: "k < ?n" and P: "?P k m"
    have c: "unat (location s key k) < length (count s ! k)"
      using location_less[OF w0] shape_ok_row[OF sh k] by simp
    have b: "?body k m = Inr (if k = 0 \<or> cell s key k < m then cell s key k else m)"
      using k c len by (simp add: Let_def cell_def)
    have "?P (Suc k) (if k = 0 \<or> cell s key k < m then cell s key k else m)"
    proof (cases "k = 0")
      case True
      then show ?thesis by simp
    next
      case False
      then have "Min (cell s key ` {0..<Suc k}) = min (cell s key k) m"
        using P by (simp add: Min_upt_Suc)
      then show ?thesis using False by (auto simp: min_def)
    qed
    with b show "\<exists>st'. ?body k m = Inr st' \<and> ?P (Suc k) st'"
      by blast
  qed
  then obtain m where 1: "for_each [0..<?n] ?body 0 = Inr m" and 2: "?P ?n m"
    by blast
  have "Estimate s key = Inr (m, ?s1)"
    using 1 by (simp add: Estimate_def locations_eq[OF w0])
  with 2 show ?thesis by (simp add: unat_eq_0)
qed

lemma Update_shape_nz:
  assumes "shape_ok s" "w s \<noteq> 0" "Update s key cnt = Inr s'"
  shows "shape_ok s'"
proof -
  from Update_ok[OF assms(1,2), of key cnt] assms(3)
  have 1: "d s' = d s" "w s' = w s" "length (count s') = length (count s)"
    and 2: "\<forall>r < unat (d s). count s' ! r = (count s ! r)[unat (location s key r) := cell s key r + cnt]"
    by auto
  have len: "length (count s) = unat (d s)" using assms(1) by (simp add: shape_ok_def)
  have "length row = unat (w s')" if "row \<in> set (count s')" for row
  proof -
    from that obtain r where r: "r < length (count s')" "row = count s' ! r"
      by (auto simp: in_set_conv_nth)
    then show ?thesis using 1 2 len shape_ok_row[OF assms(1), of r] by simp
  qed
  then show ?thesis using 1 len by (simp add: shape_ok_def)
qed

text \<open>
  Claim C1. The claim reads: for every sketch with depth and width at least 1,
  every key and every positive amount \<open>a\<close>, \<^verbatim>\<open>Update(k, a)\<close> followed by
  \<^verbatim>\<open>Estimate(k)\<close> gives at least \<open>a\<close>, whatever the earlier updates. The
  counters are \<^verbatim>\<open>uint64\<close> and \<^verbatim>\<open>+=\<close> wraps. What holds: for a sketch with
  \<open>d \<ge> 1\<close> rows of \<open>w \<ge> 1\<close> cells and a positive \<open>a\<close>, \<^verbatim>\<open>Update\<close> returns, the
  following \<^verbatim>\<open>Estimate\<close> returns a value \<open>v\<close>, and \<open>v \<ge> a\<close> exactly when no
  cell of the key overflows, that is when every cell of the key held at most
  \<open>2^64 - 1 - a\<close> before the call.
\<close>

theorem C1_update_then_estimate:
  assumes "shape_ok s" and "1 \<le> d s" and "1 \<le> w s" and "0 < a"
  shows "\<exists>s' v s''. Update s key a = Inr s' \<and> Estimate s' key = Inr (v, s'') \<and>
           (a \<le> v \<longleftrightarrow> (\<forall>r < unat (d s). unat (cell s key r) + unat a < 2 ^ 64))"
proof -
  have w0: "w s \<noteq> 0" and d0: "d s \<noteq> 0" using assms(2,3) by (simp_all add: word_ge1)
  from Update_ok[OF assms(1) w0, of key a] obtain s' where
    u: "Update s key a = Inr s'" and dw: "d s' = d s" "w s' = w s"
    and rows: "\<forall>r < unat (d s). count s' ! r =
                 (count s ! r)[unat (location s key r) := cell s key r + a]"
    by blast
  have sh': "shape_ok s'" using Update_shape_nz[OF assms(1) w0 u] .
  have cell': "cell s' key r = cell s key r + a" if "r < unat (d s)" for r
  proof -
    have "unat (location s key r) < length (count s ! r)"
      using location_less[OF w0] shape_ok_row[OF assms(1) that] by simp
    then show ?thesis
      using rows that by (simp add: cell_def location_cong[OF dw(2)])
  qed
  have ge: "a \<le> cell s' key r \<longleftrightarrow> unat (cell s key r) + unat a < 2 ^ 64"
    if "r < unat (d s)" for r
  proof -
    have "a \<le> a + cell s key r \<longleftrightarrow> unat a + unat (cell s key r) < 2 ^ 64"
      using no_olen_add_nat[of a "cell s key r"] by simp
    then show ?thesis
      unfolding cell'[OF that] by (simp only: add.commute)
  qed
  have ne: "{0..<unat (d s)} \<noteq> {}" using d0 by (simp add: unat_gt_0)
  have "a \<le> Min (cell s' key ` {0..<unat (d s)}) \<longleftrightarrow>
        (\<forall>r < unat (d s). unat (cell s key r) + unat a < 2 ^ 64)"
  proof -
    have "a \<le> Min (cell s' key ` {0..<unat (d s)}) \<longleftrightarrow>
          (\<forall>r \<in> {0..<unat (d s)}. a \<le> cell s' key r)"
      using ne by (subst Min_ge_iff) auto
    also have "\<dots> \<longleftrightarrow> (\<forall>r < unat (d s). unat (cell s key r) + unat a < 2 ^ 64)"
      using ge by auto
    finally show ?thesis .
  qed
  moreover have "Estimate s' key =
      Inr (Min (cell s' key ` {0..<unat (d s)}), s'\<lparr>hasher := fnv_Write offset64 key\<rparr>)"
    using Estimate_eq[OF sh', of key] w0 d0 dw by simp
  ultimately show ?thesis using u by blast
qed

theorem C1_update_then_estimate_witness:
  "shape_ok sketch_2x2 \<and> 1 \<le> d sketch_2x2 \<and> 1 \<le> w sketch_2x2 \<and> (0 :: uint64) < 5 \<and>
   unat (cell sketch_2x2 [0x61] 0) + unat (5 :: uint64) < 2 ^ 64 \<and>
   unat (cell sketch_2x2 [0x61] 1) + unat (5 :: uint64) < 2 ^ 64 \<and>
   (\<exists>s' v s''. Update sketch_2x2 [0x61] 5 = Inr s' \<and> Estimate s' [0x61] = Inr (v, s'') \<and> 5 \<le> v)"
proof -
  have h1: "shape_ok sketch_2x2" "1 \<le> d sketch_2x2" "1 \<le> w sketch_2x2" "(0 :: uint64) < 5"
    by (simp_all add: shape_ok_def sketch_2x2_def)
  have c: "unat (cell sketch_2x2 [0x61] 0) + unat (5 :: uint64) < 2 ^ 64"
    "unat (cell sketch_2x2 [0x61] 1) + unat (5 :: uint64) < 2 ^ 64"
    by (simp_all add: cell_def location_def baseHashes_def Let_def sketch_2x2_def
        fnv_Write_def fnv_Reset_def fnv_Sum_def offset64_def prime64_def PutUint64_def Uint32_def)
  have h2: "\<forall>r < unat (d sketch_2x2). unat (cell sketch_2x2 [0x61] r) + unat (5 :: uint64) < 2 ^ 64"
  proof (intro allI impI)
    fix r assume "r < unat (d sketch_2x2)"
    then have "r = 0 \<or> r = 1" by (auto simp: sketch_2x2_def)
    then show "unat (cell sketch_2x2 [0x61] r) + unat (5 :: uint64) < 2 ^ 64"
      using c by auto
  qed
  from C1_update_then_estimate[OF h1, of "[0x61]"] obtain s' v s'' where
    r: "Update sketch_2x2 [0x61] 5 = Inr s'" "Estimate s' [0x61] = Inr (v, s'')"
      "5 \<le> v \<longleftrightarrow> (\<forall>r < unat (d sketch_2x2). unat (cell sketch_2x2 [0x61] r) + unat (5 :: uint64) < 2 ^ 64)"
    by blast
  from r(3) h2 have "5 \<le> v" by (rule iffD2)
  with r(1,2) have "\<exists>s' v s''. Update sketch_2x2 [0x61] 5 = Inr s' \<and>
      Estimate s' [0x61] = Inr (v, s'') \<and> 5 \<le> v"
    by blast
  then show ?thesis using h1 c by simp
qed

text \<open>
  The claim as written fails once a cell wraps: a fresh 1 x 1 sketch, updated
  with \<open>2^64 - 1\<close> and then with 1 for the same key, estimates 0 for that key.
\<close>

theorem C1_counterexample:
  "New 1 1 = (Some sketch_1x1, None) \<and>
   Update sketch_1x1 [0x61] 0xFFFFFFFFFFFFFFFF = Inr sketch_full \<and>
   Update sketch_full [0x61] 1 = Inr (sketch_full\<lparr>count := [[0]]\<rparr>) \<and>
   Estimate (sketch_full\<lparr>count := [[0]]\<rparr>) [0x61] = Inr (0, sketch_full\<lparr>count := [[0]]\<rparr>) \<and>
   \<not> (1 :: uint64) \<le> 0"
  by (simp add: New_def Update_def Estimate_def locations_def baseHashes_def Let_def
      sketch_1x1_def sketch_full_def fnv_New64_def fnv_Reset_def)




text \<open>
  Claim C10. For a sketch with \<open>w \<ge> 1\<close> whose matrix has \<open>d\<close> rows of \<open>w\<close>
  cells and for every key, \<^verbatim>\<open>locations\<close> returns \<open>d\<close> indices, each below
  \<open>w\<close>; the cell \<open>count[r][locs[r]]\<close> exists for every row, and neither
  \<^verbatim>\<open>Update\<close> nor \<^verbatim>\<open>Estimate\<close> panics.
\<close>

theorem C10_locations_in_bounds:
  assumes "shape_ok s" and "1 \<le> w s"
  shows "(\<exists>locs s'. locations s key = Inr (locs, s') \<and> length locs = unat (d s) \<and>
            (\<forall>r < length locs. locs ! r < w s \<and>
               r < length (count s) \<and> unat (locs ! r) < length (count s ! r))) \<and>
         (\<exists>s'. Update s key a = Inr s') \<and>
         (\<exists>v s'. Estimate s key = Inr (v, s'))"
proof -
  have w0: "w s \<noteq> 0" using assms(2) by (simp add: word_ge1)
  have len: "length (count s) = unat (d s)" using assms(1) by (simp add: shape_ok_def)
  have "locs ! r < w s \<and> r < length (count s) \<and> unat (locs ! r) < length (count s ! r)"
    if "locs = map (location s key) [0..<unat (d s)]" and "r < length locs" for locs r
    using that location_less[OF w0, of key r] shape_ok_row[OF assms(1), of r] len
    by (simp add: word_less_nat_alt)
  then have "\<exists>locs s'. locations s key = Inr (locs, s') \<and> length locs = unat (d s) \<and>
            (\<forall>r < length locs. locs ! r < w s \<and>
               r < length (count s) \<and> unat (locs ! r) < length (count s ! r))"
    using locations_eq[OF w0, of key] by simp
  moreover have "\<exists>s'. Update s key a = Inr s'"
    using Update_ok[OF assms(1) w0, of key a] by blast
  moreover have "\<exists>v s'. Estimate s key = Inr (v, s')"
    using Estimate_eq[OF assms(1) w0, of key] by blast
  ultimately show ?thesis by blast
qed

theorem C10_locations_in_bounds_witness:
  "shape_ok sketch_3x2 \<and> 1 \<le> w sketch_3x2 \<and>
   (\<exists>locs s'. locations sketch_3x2 [0x61, 0x62, 0x63] = Inr (locs, s') \<and>
       length locs = unat (d sketch_3x2) \<and>
       (\<forall>r < length locs. locs ! r < w sketch_3x2 \<and>
          r < length (count sketch_3x2) \<and> unat (locs ! r) < length (count sketch_3x2 ! r))) \<and>
   (\<exists>s'. Update sketch_3x2 [0x61, 0x62, 0x63] 7 = Inr s') \<and>
   (\<exists>v s'. Estimate sketch_3x2 [0x61, 0x62, 0x63] = Inr (v, s'))"
proof -
  have h: "shape_ok sketch_3x2" "1 \<le> w sketch_3x2"
    by (simp_all add: shape_ok_def sketch_3x2_def)
  show ?thesis using h C10_locations_in_bounds[OF h, of "[0x61, 0x62, 0x63]" 7] by blast
qed

section \<open>Merge\<close>





text \<open>
  When the argument is the receiver itself the loop reads the cells it is
  writing, and every cell is doubled.
\<close>

lemma Merge_self_example:
  "(case Merge 0 0 two_sketches of Inr (e, h') \<Rightarrow> (e, h' 0) | Inl p \<Rightarrow> (None, None)) =
   (None, Some (sketch_2x2\<lparr>count := [[2, 4], [6, 516]]\<rparr>))"
  by (simp add: Merge_def Merge_cell_def two_sketches_def sketch_2x2_def upt_rec)

text \<open>
  Claim C6. When the depths or the widths of two sketches differ, \<^verbatim>\<open>Merge\<close>
  returns the error for the depth (checked first) or for the width, and the
  heap is the one before the call: receiver and argument are untouched.
\<close>

theorem C6_Merge_mismatch:
  assumes "h a = Some A" and "h b = Some B" and "d A \<noteq> d B \<or> w A \<noteq> w B"
  shows "Merge a b h =
         Inr (Some (Error (if d A \<noteq> d B then ''countminsketch: matrix depth must match''
                           else ''countminsketch: matrix width must match'')), h)"
  using assms by (simp add: Merge_def)

theorem C6_Merge_mismatch_witness:
  "mismatched_sketches 0 = Some sketch_2x2 \<and> mismatched_sketches 1 = Some sketch_3x2 \<and>
   d sketch_2x2 \<noteq> d sketch_3x2 \<and>
   Merge 0 1 mismatched_sketches =
     Inr (Some (Error ''countminsketch: matrix depth must match''), mismatched_sketches)"
proof -
  have h: "mismatched_sketches 0 = Some sketch_2x2" "mismatched_sketches 1 = Some sketch_3x2"
    "d sketch_2x2 \<noteq> d sketch_3x2 \<or> w sketch_2x2 \<noteq> w sketch_3x2"
    by (simp_all add: mismatched_sketches_def sketch_2x2_def sketch_3x2_def)
  have "d sketch_2x2 \<noteq> d sketch_3x2" by (simp add: sketch_2x2_def sketch_3x2_def)
  then show ?thesis using h C6_Merge_mismatch[OF h] by simp
qed

section \<open>Binary encoding\<close>

lemma byte_part: "push_bit k (ucast (ucast (drop_bit k (v::64 word)) :: 8 word) :: 64 word) = push_bit k (take_bit 8 (drop_bit k v))"
  by (rule bit_word_eqI) (auto simp add: bit_simps)

lemma byte_part0: "(ucast (ucast (v::64 word) :: 8 word) :: 64 word) = take_bit 8 v"
  by (rule bit_word_eqI) (auto simp add: bit_simps)

lemma bit_byte_part:
  "bit (push_bit k (take_bit 8 (drop_bit k (v::64 word)))) n \<longleftrightarrow> k \<le> n \<and> n < k + 8 \<and> bit v n"
  by (auto simp add: bit_simps dest: bit_imp_le_length)

lemma Uint64_PutUint64: "Uint64 (PutUint64 v) = v"
proof (rule bit_word_eqI)
  fix n
  assume n: "n < LENGTH(64)"
  have "bit (Uint64 (PutUint64 v)) n \<longleftrightarrow>
        (n < 8 \<or> (8 \<le> n \<and> n < 16) \<or> (16 \<le> n \<and> n < 24) \<or> (24 \<le> n \<and> n < 32) \<or>
         (32 \<le> n \<and> n < 40) \<or> (40 \<le> n \<and> n < 48) \<or> (48 \<le> n \<and> n < 56) \<or> 56 \<le> n \<and> n < 64) \<and> bit v n"
    unfolding Uint64_def PutUint64_def
    by (simp add: byte_part byte_part0 bit_or_iff bit_byte_part bit_take_bit_iff) blast
  also have "\<dots> \<longleftrightarrow> bit v n"
    using n by auto
  finally show "bit (Uint64 (PutUint64 v)) n \<longleftrightarrow> bit v n" .
qed

lemma length_PutUint64: "length (PutUint64 v) = 8"
  by (simp add: PutUint64_def)

lemma length_encode: "length (concat (map PutUint64 xs)) = 8 * length xs"
  by (induction xs) (simp_all add: length_PutUint64)

lemma WriteTo_row:
  assumes "r < length (count s)" and "length (count s ! r) = m" and "length C = m"
  shows "for_each [0..<m]
           (\<lambda>c C. if r < length (count s) \<and> c < length (count s ! r)
                   then Inr (C[c := count s ! r ! c])
                   else Inl IndexOutOfRange) C = Inr (count s ! r)"
proof -
  let ?body = "\<lambda>c C. if r < length (count s) \<and> c < length (count s ! r)
                   then Inr (C[c := count s ! r ! c])
                   else Inl IndexOutOfRange"
  let ?P = "\<lambda>c (C :: uint64 list). length C = m \<and> (\<forall>c' < c. C ! c' = count s ! r ! c')"
  have "\<exists>C'. for_each [0..<m] ?body C = Inr C' \<and> ?P m C'"
  proof (rule for_each_upt_inv[where P = ?P])
    show "?P 0 C" using assms(3) by simp
  next
    fix k st
    assume "k < m" "?P k st"
    then show "\<exists>st'. ?body k st = Inr st' \<and> ?P (Suc k) st'"
      using assms(1,2) by (auto simp: nth_list_update less_Suc_eq)
  qed
  then obtain C' where 1: "for_each [0..<m] ?body C = Inr C'" and 2: "?P m C'"
    by blast
  have "C' = count s ! r"
    using 2 assms(2) by (intro nth_equalityI) auto
  with 1 show ?thesis by simp
qed

lemma WriteTo_eq:
  assumes sh: "shape_ok s"
  shows "WriteTo s stream =
         Inr ((2 * 8 + d s * (8 * w s), None),
              stream @ PutUint64 (d s) @ PutUint64 (w s) @ concat (map PutUint64 (concat (count s))))"
proof -
  let ?n = "unat (d s)"
  let ?m = "unat (w s)"
  let ?s2 = "(stream @ PutUint64 (d s)) @ PutUint64 (w s)"
  let ?inner = "\<lambda>r. for_each [0..<?m]
                          (\<lambda>c C. if r < length (count s) \<and> c < length (count s ! r)
                                  then Inr (C[c := count s ! r ! c])
                                  else Inl IndexOutOfRange)"
  let ?body = "\<lambda>r (C, stream).
                   case ?inner r C of
                     Inl p \<Rightarrow> Inl p
                   | Inr C' \<Rightarrow> Inr (C', stream @ concat (map PutUint64 C'))"
  let ?P = "\<lambda>r (st :: uint64 list \<times> byte list). length (fst st) = ?m \<and>
              snd st = ?s2 @ concat (map PutUint64 (concat (take r (count s))))"
  have len: "length (count s) = ?n" using sh by (simp add: shape_ok_def)
  have "\<exists>st'. for_each [0..<?n] ?body (replicate ?m 0, ?s2) = Inr st' \<and> ?P ?n st'"
  proof (rule for_each_upt_inv[where P = ?P])
    show "?P 0 (replicate ?m 0, ?s2)" by simp
  next
    fix r st
    assume r: "r < ?n" and P: "?P r st"
    obtain C bs where st: "st = (C, bs)" by (cases st)
    have row: "length (count s ! r) = ?m" using shape_ok_row[OF sh r] .
    let ?X = "(count s ! r, bs @ concat (map PutUint64 (count s ! r)))"
    have i: "?inner r C = Inr (count s ! r)"
      using P st len r by (intro WriteTo_row[of r s ?m C]) (simp_all add: row)
    have b: "?body r st = Inr ?X"
      unfolding st by (simp only: i prod.case sum.case)
    have p: "?P (Suc r) ?X"
      using P st r len row by (simp add: take_Suc_conv_app_nth)
    show "\<exists>st'. ?body r st = Inr st' \<and> ?P (Suc r) st'"
      by (intro exI[of _ ?X] conjI b p)
  qed
  then obtain st' where 12: "for_each [0..<?n] ?body (replicate ?m 0, ?s2) = Inr st' \<and> ?P ?n st'" ..
  note 1 = conjunct1[OF 12] and 2 = conjunct2[OF 12]
  obtain C' bs where st': "st' = (C', bs)" by (cases st')
  from 2 len st' have 3: "length C' = ?m" "bs = ?s2 @ concat (map PutUint64 (concat (count s)))"
    by simp_all
  have "WriteTo s stream = Inr ((2 * 8 + d s * (8 * of_nat (length C')), None), bs)"
    unfolding WriteTo_def Let_def by (simp only: 1 st' sum.case prod.case)
  then show ?thesis
    using 3 by simp
qed

lemma decode_encode: "decode_uint64s (length xs) (concat (map PutUint64 xs)) = xs"
  by (induction xs) (simp_all add: length_PutUint64 Uint64_PutUint64)

lemma binary_Read_uint64_PutUint64:
  "binary_Read_uint64 (PutUint64 v @ rest) = (Inr v, rest)"
proof -
  have "io_ReadFull 8 (PutUint64 v @ rest) = (Inr (PutUint64 v), rest)"
    by (simp add: io_ReadFull_def length_PutUint64) (simp add: PutUint64_def)
  then show ?thesis
    by (simp add: binary_Read_uint64_def Uint64_PutUint64)
qed

lemma binary_Read_slice_encode:
  "binary_Read_slice (length xs) (concat (map PutUint64 xs) @ rest) = (Inr xs, rest)"
proof (cases "xs = []")
  case True
  then show ?thesis by (simp add: binary_Read_slice_def io_ReadFull_def)
next
  case False
  then have "concat (map PutUint64 xs) \<noteq> []"
    by (cases xs) (simp_all add: PutUint64_def)
  then have "io_ReadFull (8 * length xs) (concat (map PutUint64 xs) @ rest) =
             (Inr (concat (map PutUint64 xs)), rest)"
    using False by (simp add: io_ReadFull_def length_encode)
  then show ?thesis
    by (simp add: binary_Read_slice_def decode_encode)
qed

lemma ReadFrom_copy_row:
  assumes "r < length (count s)" and "length (count s ! r) = unat (w s)" and "length C' = unat (w s)"
  shows "for_each [0..<unat (w s)]
           (\<lambda>c s. if r < length (count s) \<and> c < length (count s ! r) \<and> c < length C'
                   then Inr (s\<lparr>count := (count s)[r := (count s ! r)[c := C' ! c]]\<rparr>)
                   else Inl IndexOutOfRange) s = Inr (s\<lparr>count := (count s)[r := C']\<rparr>)"
proof -
  let ?m = "unat (w s)"
  let ?body = "\<lambda>c s. if r < length (count s) \<and> c < length (count s ! r) \<and> c < length C'
                   then Inr (s\<lparr>count := (count s)[r := (count s ! r)[c := C' ! c]]\<rparr>)
                   else Inl IndexOutOfRange"
  let ?P = "\<lambda>c st. \<exists>row. st = s\<lparr>count := (count s)[r := row]\<rparr> \<and> length row = ?m \<and>
              (\<forall>c' < c. row ! c' = C' ! c')"
  have "\<exists>st'. for_each [0..<?m] ?body s = Inr st' \<and> ?P ?m st'"
  proof (rule for_each_upt_inv[where P = ?P])
    show "?P 0 s"
      using assms(1,2) by (intro exI[of _ "count s ! r"]) simp
  next
    fix k st
    assume k: "k < ?m" and P: "?P k st"
    then obtain row where row: "st = s\<lparr>count := (count s)[r := row]\<rparr>" "length row = ?m"
      "\<forall>c' < k. row ! c' = C' ! c'"
      by (elim exE conjE)
    have b: "?body k st = Inr (s\<lparr>count := (count s)[r := row[k := C' ! k]]\<rparr>)"
      using k row(2) assms by (simp add: row(1))
    have p: "?P (Suc k) (s\<lparr>count := (count s)[r := row[k := C' ! k]]\<rparr>)"
      using row(2,3) k by (intro exI[of _ "row[k := C' ! k]"]) (auto simp: nth_list_update less_Suc_eq)
    show "\<exists>st'. ?body k st = Inr st' \<and> ?P (Suc k) st'"
      by (intro exI[of _ "s\<lparr>count := (count s)[r := row[k := C' ! k]]\<rparr>"] conjI b p)
  qed
  then obtain st' where 12: "for_each [0..<?m] ?body s = Inr st' \<and> ?P ?m st'" ..
  then obtain row where row: "st' = s\<lparr>count := (count s)[r := row]\<rparr>" "length row = ?m"
      "\<forall>c' < ?m. row ! c' = C' ! c'"
    by (elim exE conjE)
  have "row = C'"
    using row(2,3) assms(3) by (intro nth_equalityI) auto
  with 12 row(1) show ?thesis by simp
qed

lemma ReadFrom_rows_ok:
  assumes "length (count s) = k + length rws"
    and "\<forall>row \<in> set (count s). length row = unat (w s)"
    and "\<forall>row \<in> set rws. length row = unat (w s)"
    and "length C = unat (w s)"
  shows "ReadFrom_rows [k..<k + length rws] s C (concat (map PutUint64 (concat rws)) @ rest) =
         Inr (None, s\<lparr>count := take k (count s) @ rws\<rparr>, rest)"
  using assms
proof (induction rws arbitrary: k s C)
  case Nil
  then show ?case by simp
next
  case (Cons row rws)
  let ?s' = "s\<lparr>count := (count s)[k := row]\<rparr>"
  have k: "k < length (count s)" using Cons.prems(1) by simp
  have lrow: "length row = length C" using Cons.prems(3,4) by simp
  have rd: "binary_Read_slice (length C) (concat (map PutUint64 (concat (row # rws))) @ rest) =
        (Inr row, concat (map PutUint64 (concat rws)) @ rest)"
    using binary_Read_slice_encode[of row "concat (map PutUint64 (concat rws)) @ rest"] lrow
    by simp
  have cp: "for_each [0..<unat (w s)]
           (\<lambda>c s. if k < length (count s) \<and> c < length (count s ! k) \<and> c < length row
                   then Inr (s\<lparr>count := (count s)[k := (count s ! k)[c := row ! c]]\<rparr>)
                   else Inl IndexOutOfRange) s = Inr ?s'"
    using k Cons.prems(2,3) by (intro ReadFrom_copy_row) simp_all
  have ih: "ReadFrom_rows [Suc k..<Suc k + length rws] ?s' row (concat (map PutUint64 (concat rws)) @ rest) =
         Inr (None, ?s'\<lparr>count := take (Suc k) (count ?s') @ rws\<rparr>, rest)"
  proof (rule Cons.IH)
    show "length (count ?s') = Suc k + length rws" using Cons.prems(1) by simp
    show "\<forall>r \<in> set (count ?s'). length r = unat (w ?s')"
      using Cons.prems(2,3) by (auto dest!: set_update_subset_insert[THEN subsetD])
    show "\<forall>r \<in> set rws. length r = unat (w ?s')" using Cons.prems(3) by simp
    show "length row = unat (w ?s')" using Cons.prems(3) by simp
  qed
  have tk: "take (Suc k) ((count s)[k := row]) @ rws = take k (count s) @ row # rws"
    using k by (simp add: take_Suc_conv_app_nth)
  have "k < Suc k + length rws" by simp
  from upt_conv_Cons[OF this]
  have "[k..<k + length (row # rws)] = k # [Suc k..<Suc k + length rws]"
    by (simp only: length_Cons add_Suc_right add_Suc)
  then show ?case
    using ih tk by (simp only: ReadFrom_rows.simps rd cp prod.case sum.case) simp
qed

lemma ReadFrom_encoded:
  assumes "length rows = unat dd" and "\<forall>row \<in> set rows. length row = unat ww"
  shows "ReadFrom s0 (PutUint64 dd @ PutUint64 ww @ concat (map PutUint64 (concat rows)) @ rest) =
         Inr ((2 * 8 + dd * (8 * ww), None),
              s0\<lparr>d := dd, w := ww, count := rows, hasher := fnv_New64\<rparr>, rest)"
proof -
  let ?s2 = "s0\<lparr>d := dd, w := ww, count := replicate (unat dd) (replicate (unat ww) 0)\<rparr>"
  have "ReadFrom_rows [0..<0 + length rows] ?s2 (replicate (unat ww) 0)
          (concat (map PutUint64 (concat rows)) @ rest) =
        Inr (None, ?s2\<lparr>count := take 0 (count ?s2) @ rows\<rparr>, rest)"
    using assms by (intro ReadFrom_rows_ok) simp_all
  then have rr: "ReadFrom_rows [0..<unat dd] ?s2 (replicate (unat ww) 0)
          (concat (map PutUint64 (concat rows)) @ rest) =
        Inr (None, s0\<lparr>d := dd, w := ww, count := rows\<rparr>, rest)"
    using assms(1) by simp
  show ?thesis
    unfolding ReadFrom_def
    by (simp add: binary_Read_uint64_PutUint64 Let_def alloc_rows rr)
qed

lemma be_value_PutUint64: "be_value (PutUint64 v) = unat v"
proof -
  define x where "x = unat v"
  define q where "q k = x div 256 ^ k" for k
  have x: "x < 256 ^ 8" unfolding x_def using unsigned_less[of v, where ?'a = nat] by simp
  have b: "unat (ucast (drop_bit (8 * k) v) :: byte) = q k mod 256" for k
    by (simp only: unsigned_ucast_eq unat_drop_bit_eq x_def q_def)
       (simp add: take_bit_eq_mod drop_bit_eq_div power_mult)
  have step: "256 * q (k + 1) + q k mod 256 = q k" for k
  proof -
    have "x div (256 * 256 ^ k) = x div 256 ^ k div 256"
      by (subst mult.commute) (rule div_mult2_eq)
    then show ?thesis by (simp add: q_def)
  qed
  have top: "q 8 = 0" using x by (simp add: q_def)
  have "be_value (PutUint64 v) =
        256 * (256 * (256 * (256 * (256 * (256 * (256 * (256 * 0 + q 7 mod 256) + q 6 mod 256)
          + q 5 mod 256) + q 4 mod 256) + q 3 mod 256) + q 2 mod 256) + q 1 mod 256) + q 0 mod 256"
    using b[of 7] b[of 6] b[of 5] b[of 4] b[of 3] b[of 2] b[of 1] b[of 0]
    by (simp add: be_value_def PutUint64_def)
  also have "\<dots> = 256 * (256 * (256 * (256 * (256 * (256 * (256 * (256 * q 8 + q 7 mod 256) + q 6 mod 256)
          + q 5 mod 256) + q 4 mod 256) + q 3 mod 256) + q 2 mod 256) + q 1 mod 256) + q 0 mod 256"
    by (simp only: top)
  also have "\<dots> = q 0"
  proof -
    have s: "256 * q 8 + q 7 mod 256 = q 7" "256 * q 7 + q 6 mod 256 = q 6"
      "256 * q 6 + q 5 mod 256 = q 5" "256 * q 5 + q 4 mod 256 = q 4"
      "256 * q 4 + q 3 mod 256 = q 3" "256 * q 3 + q 2 mod 256 = q 2"
      using step[of 7] step[of 6] step[of 5] step[of 4] step[of 3] step[of 2]
      by simp_all
    have s1: "256 * q 2 + q 1 mod 256 = q 1"
      using step[of 1] by (simp only: one_add_one)
    have s0: "256 * q 1 + q 0 mod 256 = q 0"
      using step[of 0] by (simp only: add_0)
    show ?thesis by (simp only: s s1 s0)
  qed
  finally show ?thesis by (simp add: q_def x_def)
qed

lemma sint_of_nat_small:
  assumes "n < 2 ^ 63"
  shows "sint (of_nat n :: 64 word) = int n"
proof -
  have "int n < int (2 ^ 63)" using assms by (simp only: of_nat_less_iff)
  then have "int n < 2 ^ 63" by simp
  then have "signed_take_bit 63 (int n) = int n"
    by (intro signed_take_bit_int_eq_self) simp_all
  then show ?thesis by (simp add: signed_of_nat)
qed

lemma encoded_nth:
  "i < length xs \<Longrightarrow> take 8 (drop (8 * i) (concat (map PutUint64 xs))) = PutUint64 (xs ! i)"
proof (induction xs arbitrary: i)
  case Nil
  then show ?case by simp
next
  case (Cons x xs)
  show ?case
  proof (cases i)
    case 0
    then show ?thesis by (simp add: length_PutUint64)
  next
    case (Suc k)
    then show ?thesis using Cons by (simp add: length_PutUint64)
  qed
qed

lemma concat_nth_uniform:
  assumes "\<forall>row \<in> set rows. length row = m" and "r < length rows" and "c < m"
  shows "r * m + c < length (concat rows) \<and> concat rows ! (r * m + c) = rows ! r ! c"
  using assms
proof (induction rows arbitrary: r)
  case Nil
  then show ?case by simp
next
  case (Cons row rows)
  show ?case
  proof (cases r)
    case 0
    then show ?thesis using Cons.prems by (simp add: nth_append)
  next
    case (Suc k)
    then have "k * m + c < length (concat rows) \<and> concat rows ! (k * m + c) = rows ! k ! c"
      using Cons by simp
    then show ?thesis using Suc Cons.prems by (simp add: nth_append)
  qed
qed

lemma length_concat_uniform:
  "\<forall>row \<in> set rows. length row = m \<Longrightarrow> length (concat rows) = length rows * m"
  by (induction rows) simp_all

lemma length_wire_format:
  "shape_ok s \<Longrightarrow> length (wire_format s) = 16 + 8 * unat (d s) * unat (w s)"
  by (simp add: wire_format_def length_PutUint64 length_encode shape_ok_def
      length_concat_uniform[where m = "unat (w s)"])

lemma wire_format_cell:
  assumes "shape_ok s" and "r < unat (d s)" and "c < unat (w s)"
  shows "take 8 (drop (16 + 8 * (r * unat (w s) + c)) (wire_format s)) = PutUint64 (count s ! r ! c)"
proof -
  have 1: "r * unat (w s) + c < length (concat (count s)) \<and>
           concat (count s) ! (r * unat (w s) + c) = count s ! r ! c"
    using assms by (intro concat_nth_uniform) (simp_all add: shape_ok_def)
  have "drop (16 + 8 * (r * unat (w s) + c)) (wire_format s) =
        drop (8 * (r * unat (w s) + c)) (concat (map PutUint64 (concat (count s))))"
    by (simp add: wire_format_def length_PutUint64)
  then show ?thesis using 1 by (simp only: encoded_nth)
qed

text \<open>
  Claim C4. For a sketch whose matrix has \<open>d\<close> rows of \<open>w\<close> cells, \<^verbatim>\<open>WriteTo\<close>
  writes exactly the wire format: the depth in bytes 0 to 7, the width in bytes
  8 to 15, then the counters in row-major order, cell \<open>(r, c)\<close> in the 8 bytes
  at offset \<open>16 + 8 * (r * w + c)\<close>; every 8-byte field is the big-endian
  representation of its value; the stream is \<open>16 + 8 * d * w\<close> bytes long and
  \<^verbatim>\<open>WriteTo\<close> returns that count (as an \<^verbatim>\<open>int64\<close>, so for a length below
  \<open>2^63\<close>, which every sketch that fits in memory has).
\<close>

theorem C4_binary_layout:
  assumes "shape_ok s"
  shows "WriteTo s [] = Inr ((of_nat (length (wire_format s)), None), wire_format s) \<and>
         length (wire_format s) = 16 + 8 * unat (d s) * unat (w s) \<and>
         take 8 (wire_format s) = PutUint64 (d s) \<and>
         take 8 (drop 8 (wire_format s)) = PutUint64 (w s) \<and>
         (\<forall>r < unat (d s). \<forall>c < unat (w s).
            take 8 (drop (16 + 8 * (r * unat (w s) + c)) (wire_format s)) =
            PutUint64 (count s ! r ! c)) \<and>
         (\<forall>v. length (PutUint64 v) = 8 \<and> be_value (PutUint64 v) = unat v) \<and>
         (length (wire_format s) < 2 ^ 63 \<longrightarrow>
            sint (of_nat (length (wire_format s)) :: int64) = int (length (wire_format s)))"
proof -
  have len: "length (wire_format s) = 16 + 8 * unat (d s) * unat (w s)"
    using assms by (rule length_wire_format)
  have w1: "WriteTo s [] = Inr ((2 * 8 + d s * (8 * w s), None), wire_format s)"
    using WriteTo_eq[OF assms, of "[]"] by (simp add: wire_format_def)
  have n: "(of_nat (length (wire_format s)) :: int64) = 2 * 8 + d s * (8 * w s)"
    unfolding len by simp
  have c1: "WriteTo s [] = Inr ((of_nat (length (wire_format s)), None), wire_format s)"
    by (simp only: w1 n)
  have c3: "take 8 (wire_format s) = PutUint64 (d s)"
    and c4: "take 8 (drop 8 (wire_format s)) = PutUint64 (w s)"
    by (simp_all add: wire_format_def length_PutUint64)
  have c5: "\<forall>r < unat (d s). \<forall>c < unat (w s).
            take 8 (drop (16 + 8 * (r * unat (w s) + c)) (wire_format s)) =
            PutUint64 (count s ! r ! c)"
    using wire_format_cell[OF assms] by simp
  have c6: "\<forall>v. length (PutUint64 v) = 8 \<and> be_value (PutUint64 v) = unat v"
    by (simp add: length_PutUint64 be_value_PutUint64)
  have c7: "length (wire_format s) < 2 ^ 63 \<longrightarrow>
            sint (of_nat (length (wire_format s)) :: int64) = int (length (wire_format s))"
    by (intro impI sint_of_nat_small)
  show ?thesis
    by (intro conjI c1 len c3 c4 c5 c6 c7)
qed

theorem C4_binary_layout_witness:
  "shape_ok sketch_2x2 \<and>
   WriteTo sketch_2x2 [] =
     Inr ((48, None),
          [0, 0, 0, 0, 0, 0, 0, 2,  0, 0, 0, 0, 0, 0, 0, 2,
           0, 0, 0, 0, 0, 0, 0, 1,  0, 0, 0, 0, 0, 0, 0, 2,
           0, 0, 0, 0, 0, 0, 0, 3,  0, 0, 0, 0, 0, 0, 1, 2]) \<and>
   sint (48 :: int64) = 48"
proof -
  have h: "shape_ok sketch_2x2" by (simp add: shape_ok_def sketch_2x2_def)
  have wf: "wire_format sketch_2x2 =
          [0, 0, 0, 0, 0, 0, 0, 2,  0, 0, 0, 0, 0, 0, 0, 2,
           0, 0, 0, 0, 0, 0, 0, 1,  0, 0, 0, 0, 0, 0, 0, 2,
           0, 0, 0, 0, 0, 0, 0, 3,  0, 0, 0, 0, 0, 0, 1, 2]"
    by (simp add: wire_format_def sketch_2x2_def PutUint64_def)
  have "sint (48 :: int64) = 48" by simp
  then show ?thesis using h C4_binary_layout[OF h, THEN conjunct1] by (simp add: wf)
qed

text \<open>
  Claim C3. For a sketch \<open>s\<close> whose matrix has \<open>d\<close> rows of \<open>w\<close> cells,
  \<^verbatim>\<open>ReadFrom\<close> (on any receiver) applied to the bytes that \<^verbatim>\<open>WriteTo\<close> wrote
  for \<open>s\<close> returns no error, consumes the whole stream and leaves a sketch
  with the depth, the width and every counter of \<open>s\<close>.
\<close>

theorem C3_binary_round_trip:
  assumes "shape_ok s"
  shows "\<exists>n bs s'. WriteTo s [] = Inr ((n, None), bs) \<and>
           ReadFrom s0 bs = Inr ((n, None), s', []) \<and>
           d s' = d s \<and> w s' = w s \<and> count s' = count s"
proof -
  let ?bs = "PutUint64 (d s) @ PutUint64 (w s) @ concat (map PutUint64 (concat (count s)))"
  let ?n = "2 * 8 + d s * (8 * w s)"
  let ?s' = "s0\<lparr>d := d s, w := w s, count := count s, hasher := fnv_New64\<rparr>"
  have 1: "WriteTo s [] = Inr ((?n, None), ?bs)"
    using WriteTo_eq[OF assms, of "[]"] by simp
  have 2: "ReadFrom s0 ?bs = Inr ((?n, None), ?s', [])"
    using ReadFrom_encoded[of "count s" "d s" "w s" s0 "[]"] assms
    by (simp add: shape_ok_def)
  show ?thesis
    by (intro exI[of _ ?n] exI[of _ ?bs] exI[of _ ?s'] conjI 1 2) simp_all
qed

theorem C3_binary_round_trip_witness:
  "shape_ok sketch_2x2 \<and>
   (\<exists>n bs s'. WriteTo sketch_2x2 [] = Inr ((n, None), bs) \<and>
      ReadFrom sketch_1x1 bs = Inr ((n, None), s', []) \<and>
      d s' = d sketch_2x2 \<and> w s' = w sketch_2x2 \<and> count s' = count sketch_2x2)"
proof -
  have h: "shape_ok sketch_2x2" by (simp add: shape_ok_def sketch_2x2_def)
  show ?thesis using h C3_binary_round_trip[OF h, of sketch_1x1] by simp
qed

section \<open>The shape invariant\<close>

lemma for_each_preserves:
  assumes "\<And>i st st'. i \<in> set xs \<Longrightarrow> P st \<Longrightarrow> body i st = Inr st' \<Longrightarrow> P st'"
    and "P st" and "for_each xs body st = Inr st'"
  shows "P st'"
  using assms
proof (induction xs arbitrary: st)
  case Nil
  then show ?case by simp
next
  case (Cons i xs)
  from Cons.prems(3) obtain st1 where 1: "body i st = Inr st1" and 2: "for_each xs body st1 = Inr st'"
    by (auto split: sum.splits)
  have st1: "P st1" using Cons.prems(1)[of i st st1] Cons.prems(2) 1 by simp
  show ?case
  proof (rule Cons.IH[OF _ st1 2])
    fix j st st'
    assume "j \<in> set xs" "P st" "body j st = Inr st'"
    then show "P st'" using Cons.prems(1)[of j st st'] by simp
  qed
qed

lemma shape_ok_cell_update:
  assumes "shape_ok s" and "i < length (count s)"
  shows "shape_ok (s\<lparr>count := (count s)[i := (count s ! i)[j := v]]\<rparr>)"
proof -
  have "length row = unat (w s)" if "row \<in> set ((count s)[i := (count s ! i)[j := v]])" for row
  proof -
    from that have "row = (count s ! i)[j := v] \<or> row \<in> set (count s)"
      using set_update_subset_insert[of "count s" i "(count s ! i)[j := v]"] by auto
    then show ?thesis using assms by (auto simp: shape_ok_def)
  qed
  then show ?thesis using assms(1) by (simp add: shape_ok_def)
qed

lemma shape_ok_hasher [simp]: "shape_ok (s\<lparr>hasher := h\<rparr>) = shape_ok s"
  by (simp add: shape_ok_def)

lemma New_shape:
  assumes "New d0 w0 = (Some s, e)"
  shows "shape_ok s \<and> d s = d0 \<and> w s = w0 \<and> d0 \<noteq> 0 \<and> w0 \<noteq> 0"
  using assms by (auto simp: New_def alloc_rows shape_ok_def split: if_splits)

lemma locations_state:
  assumes "locations s key = Inr (locs, s1)"
  shows "s1 = s\<lparr>hasher := fnv_Write offset64 key\<rparr>"
proof -
  obtain a b s' where bh: "baseHashes s key = ((a, b), s')"
    by (metis prod.exhaust)
  have "s' = s\<lparr>hasher := fnv_Write offset64 key\<rparr>"
    using baseHashes_snd[of s key] bh by simp
  moreover have "s1 = s'"
    using assms unfolding locations_def bh by (simp add: Let_def split: sum.splits)
  ultimately show ?thesis by simp
qed

lemma Update_shape:
  assumes "shape_ok s" and "Update s key a = Inr s'"
  shows "shape_ok s'"
proof -
  from assms(2) obtain locs s1 where l: "locations s key = Inr (locs, s1)"
    by (auto simp: Update_def split: sum.splits)
  have s1: "shape_ok s1" using locations_state[OF l] assms(1) by simp
  let ?body = "\<lambda>r s. let c = unat (locs ! r) in
               if r < length (count s) \<and> c < length (count s ! r) then
                 Inr (s\<lparr>count := (count s)[r := (count s ! r)[c := count s ! r ! c + a]]\<rparr>)
               else Inl IndexOutOfRange"
  have run: "for_each [0..<length locs] ?body s1 = Inr s'"
    using assms(2) by (simp add: Update_def l)
  show ?thesis
  proof (rule for_each_preserves[where P = shape_ok, OF _ s1 run])
    fix i st st'
    assume "shape_ok st" "?body i st = Inr st'"
    then show "shape_ok st'"
      by (auto simp: Let_def shape_ok_cell_update split: if_splits)
  qed
qed

lemma Estimate_shape:
  assumes "shape_ok s" and "Estimate s key = Inr (v, s')"
  shows "shape_ok s'"
proof -
  from assms(2) obtain locs s1 where l: "locations s key = Inr (locs, s1)"
    by (auto simp: Estimate_def split: sum.splits)
  have "s' = s1" using assms(2) by (auto simp: Estimate_def l split: sum.splits)
  then show ?thesis using locations_state[OF l] assms(1) by simp
qed

lemma Merge_cell_shape:
  assumes "\<forall>p S. h p = Some S \<longrightarrow> shape_ok S" and "Merge_cell a b i j h = Inr h'"
  shows "\<forall>p S. h' p = Some S \<longrightarrow> shape_ok S"
proof -
  from assms(2) obtain S T where S: "h a = Some S" and T: "h b = Some T"
    and i: "i < length (count S)"
    and h': "h' = h(a \<mapsto> S\<lparr>count := (count S)[i := (count S ! i)[j := count S ! i ! j + count T ! i ! j]]\<rparr>)"
    by (auto simp: Merge_cell_def split: option.splits if_splits)
  have "shape_ok S" using assms(1) S by simp
  then have "shape_ok (S\<lparr>count := (count S)[i := (count S ! i)[j := count S ! i ! j + count T ! i ! j]]\<rparr>)"
    using i by (rule shape_ok_cell_update)
  then show ?thesis using assms(1) by (simp add: h')
qed

lemma Merge_shape:
  assumes "\<forall>p S. h p = Some S \<longrightarrow> shape_ok S" and "Merge a b h = Inr (e, h')"
  shows "\<forall>p S. h' p = Some S \<longrightarrow> shape_ok S"
proof -
  let ?P = "\<lambda>h :: heap. \<forall>p S. h p = Some S \<longrightarrow> shape_ok S"
  from assms(2) obtain S T where S: "h a = Some S" and T: "h b = Some T"
    by (auto simp: Merge_def split: option.splits)
  show ?thesis
  proof (cases "d S \<noteq> d T \<or> w S \<noteq> w T")
    case True
    then have "h' = h" using assms(2) S T by (auto simp: Merge_def split: if_splits)
    then show ?thesis using assms(1) by simp
  next
    case False
    then have run: "for_each [0..<unat (d S)]
                 (\<lambda>i. for_each [0..<unat (w S)] (\<lambda>j. Merge_cell a b i j)) h = Inr h'"
      using assms(2) S T by (auto simp: Merge_def split: sum.splits)
    have inner: "?P h2" if "?P h1" and "for_each [0..<unat (w S)] (\<lambda>j. Merge_cell a b i j) h1 = Inr h2"
      for i h1 h2
    proof (rule for_each_preserves[where P = ?P, OF _ that(1) that(2)])
      fix j st st'
      assume "?P st" "Merge_cell a b i j st = Inr st'"
      then show "?P st'" by (rule Merge_cell_shape)
    qed
    show ?thesis
    proof (rule for_each_preserves[where P = ?P, OF _ assms(1) run])
      fix i st st'
      assume "?P st" "for_each [0..<unat (w S)] (\<lambda>j. Merge_cell a b i j) st = Inr st'"
      then show "?P st'" by (rule inner)
    qed
  qed
qed

lemma ReadFrom_rows_shape:
  assumes "shape_ok s" and "ReadFrom_rows rs s C stream = Inr (e, s', rest)"
  shows "shape_ok s'"
  using assms
proof (induction rs arbitrary: s C stream)
  case Nil
  then show ?case by simp
next
  case (Cons r rs)
  show ?case
  proof (cases "binary_Read_slice (length C) stream")
    case (Pair res rest1)
    show ?thesis
    proof (cases res)
      case (Inl err)
      then show ?thesis using Cons.prems Pair by simp
    next
      case (Inr C')
      let ?body = "\<lambda>c s. if r < length (count s) \<and> c < length (count s ! r) \<and> c < length C'
                          then Inr (s\<lparr>count := (count s)[r := (count s ! r)[c := C' ! c]]\<rparr>)
                          else Inl IndexOutOfRange"
      from Cons.prems(2) Pair Inr obtain s1 where
        cp: "for_each [0..<unat (w s)] ?body s = Inr s1"
        and rec: "ReadFrom_rows rs s1 C' rest1 = Inr (e, s', rest)"
        by (auto split: sum.splits)
      have "shape_ok s1"
      proof (rule for_each_preserves[where P = shape_ok, OF _ Cons.prems(1) cp])
        fix i st st'
        assume "shape_ok st" "?body i st = Inr st'"
        then show "shape_ok st'"
          by (auto simp: shape_ok_cell_update split: if_splits)
      qed
      then show ?thesis using Cons.IH rec by blast
    qed
  qed
qed

lemma ReadFrom_shape:
  assumes "shape_ok s" and "ReadFrom s stream = Inr (res, s', rest)"
  shows "shape_ok s'"
proof (cases "binary_Read_uint64 stream")
  case (Pair r1 rest1)
  show ?thesis
  proof (cases r1)
    case (Inl err)
    then show ?thesis using assms Pair by (simp add: ReadFrom_def)
  next
    case d0: (Inr d0)
    show ?thesis
    proof (cases "binary_Read_uint64 rest1")
      case p2: (Pair r2 rest2)
      show ?thesis
      proof (cases r2)
        case (Inl err)
        then show ?thesis using assms Pair d0 p2 by (simp add: ReadFrom_def)
      next
        case w0: (Inr w0)
        let ?s2 = "s\<lparr>d := d0, w := w0, count := replicate (unat d0) (replicate (unat w0) 0)\<rparr>"
        have sh2: "shape_ok ?s2" by (simp add: shape_ok_def)
        have "ReadFrom s stream =
              (case ReadFrom_rows [0..<unat d0] ?s2 (replicate (unat w0) 0) rest2 of
                 Inl p \<Rightarrow> Inl p
               | Inr (Some err, s3, rest) \<Rightarrow> Inr ((0, Some err), s3, rest)
               | Inr (None, s3, rest) \<Rightarrow>
                   Inr ((2 * 8 + d s3 * (8 * w0), None), s3\<lparr>hasher := fnv_New64\<rparr>, rest))"
          by (simp add: ReadFrom_def Pair d0 p2 w0 Let_def alloc_rows
              split: sum.splits option.splits prod.splits)
        with assms(2) obtain e s3 rest3 where
          rows: "ReadFrom_rows [0..<unat d0] ?s2 (replicate (unat w0) 0) rest2 = Inr (e, s3, rest3)"
          and s': "s' = s3 \<or> s' = s3\<lparr>hasher := fnv_New64\<rparr>"
          by (auto split: sum.splits option.splits)
        have "shape_ok s3" using ReadFrom_rows_shape[OF sh2 rows] .
        then show ?thesis using s' by auto
      qed
    qed
  qed
qed

lemma UnmarshalJSON_shape:
  "shape_ok (snd (UnmarshalJSON s (Inr j))) \<longleftrightarrow>
   length (Count j) = unat (D j) \<and> (\<forall>row \<in> set (Count j). length row = unat (W j))"
  by (simp add: UnmarshalJSON_def shape_ok_def)

text \<open>
  Claim C9. The claim reads: the counter storage holds exactly \<open>d * w\<close> cells in
  every reachable state, and every public operation, the JSON decoder with an
  arbitrary payload included, leaves it so. What the code gives: \<^verbatim>\<open>New\<close>
  returns a sketch with \<open>d\<close> rows of \<open>w\<close> cells; \<^verbatim>\<open>Update\<close>, \<^verbatim>\<open>Estimate\<close>,
  \<^verbatim>\<open>Merge\<close> and \<^verbatim>\<open>ReadFrom\<close> (on every outcome that returns, the error returns
  included) keep that shape; \<^verbatim>\<open>UnmarshalJSON\<close> leaves the sketch untouched when
  the payload does not parse and otherwise copies \<open>d\<close>, \<open>w\<close> and \<open>count\<close> from
  the payload unchecked, so the shape holds after it exactly when the payload's
  \<open>count\<close> has \<open>d\<close> rows of \<open>w\<close> cells.
\<close>

theorem C9_shape_invariant:
  "(New dd ww = (Some sn, en) \<longrightarrow> shape_ok sn) \<and>
   (shape_ok su \<and> Update su key a = Inr su' \<longrightarrow> shape_ok su') \<and>
   (shape_ok se \<and> Estimate se key = Inr (v, se') \<longrightarrow> shape_ok se') \<and>
   ((\<forall>p S. h p = Some S \<longrightarrow> shape_ok S) \<and> Merge pa pb h = Inr (em, h') \<longrightarrow>
      (\<forall>p S. h' p = Some S \<longrightarrow> shape_ok S)) \<and>
   (shape_ok sr \<and> ReadFrom sr stream = Inr (res, sr', rest) \<longrightarrow> shape_ok sr') \<and>
   UnmarshalJSON sj (Inl err) = (Some err, sj) \<and>
   (shape_ok (snd (UnmarshalJSON sj (Inr j))) \<longleftrightarrow>
      length (Count j) = unat (D j) \<and> (\<forall>row \<in> set (Count j). length row = unat (W j)))"
proof (intro conjI impI)
  assume "New dd ww = (Some sn, en)"
  then show "shape_ok sn" using New_shape by blast
next
  assume "shape_ok su \<and> Update su key a = Inr su'"
  then show "shape_ok su'" using Update_shape by blast
next
  assume "shape_ok se \<and> Estimate se key = Inr (v, se')"
  then show "shape_ok se'" using Estimate_shape by blast
next
  assume "(\<forall>p S. h p = Some S \<longrightarrow> shape_ok S) \<and> Merge pa pb h = Inr (em, h')"
  then show "\<forall>p S. h' p = Some S \<longrightarrow> shape_ok S"
    using Merge_shape[of h pa pb em h'] by simp
next
  assume "shape_ok sr \<and> ReadFrom sr stream = Inr (res, sr', rest)"
  then show "shape_ok sr'" using ReadFrom_shape by blast
next
  show "UnmarshalJSON sj (Inl err) = (Some err, sj)" by (simp add: UnmarshalJSON_def)
next
  show "shape_ok (snd (UnmarshalJSON sj (Inr j))) \<longleftrightarrow>
      length (Count j) = unat (D j) \<and> (\<forall>row \<in> set (Count j). length row = unat (W j))"
    by (rule UnmarshalJSON_shape)
qed

theorem C9_shape_invariant_witness:
  "New 2 2 = (Some (sketch_1x1\<lparr>d := 2, w := 2, count := [[0, 0], [0, 0]]\<rparr>), None) \<and>
   shape_ok (sketch_1x1\<lparr>d := 2, w := 2, count := [[0, 0], [0, 0]]\<rparr>) \<and>
   Update sketch_full [0x61] 1 = Inr (sketch_full\<lparr>count := [[0]]\<rparr>) \<and>
   shape_ok (sketch_full\<lparr>count := [[0]]\<rparr>) \<and>
   Estimate sketch_full [0x61] = Inr (0xFFFFFFFFFFFFFFFF, sketch_full) \<and>
   Merge 0 1 two_sketches =
     Inr (None, two_sketches(0 \<mapsto> sketch_2x2\<lparr>count := [[11, 22], [33, 298]]\<rparr>)) \<and>
   shape_ok (sketch_2x2\<lparr>count := [[11, 22], [33, 298]]\<rparr>) \<and>
   ReadFrom sketch_2x2 [0,0,0,0,0,0,0,2, 0,0,0,0,0,0,0,1, 0,0,0,0,0,0,0,9, 1,2] =
     Inr ((0, Some ErrUnexpectedEOF), sketch_2x2\<lparr>d := 2, w := 1, count := [[9], [0]]\<rparr>, []) \<and>
   shape_ok (sketch_2x2\<lparr>d := 2, w := 1, count := [[9], [0]]\<rparr>) \<and>
   shape_ok (snd (UnmarshalJSON sketch_1x1 (Inr \<lparr>D = 1, W = 2, Count = [[7, 9]]\<rparr>)))"
proof -
  have n: "New 2 2 = (Some (sketch_1x1\<lparr>d := 2, w := 2, count := [[0, 0], [0, 0]]\<rparr>), None)"
    by code_simp
  have u: "shape_ok sketch_full" "Update sketch_full [0x61] 1 = Inr (sketch_full\<lparr>count := [[0]]\<rparr>)"
    by (simp_all add: Update_def locations_def baseHashes_def Let_def sketch_full_def
        fnv_Reset_def shape_ok_def)
  have e: "Estimate sketch_full [0x61] = Inr (0xFFFFFFFFFFFFFFFF, sketch_full)"
    by (simp add: Estimate_def locations_def baseHashes_def Let_def sketch_full_def fnv_Reset_def)
  have m: "\<forall>p S. two_sketches p = Some S \<longrightarrow> shape_ok S"
    "Merge 0 1 two_sketches =
       Inr (None, two_sketches(0 \<mapsto> sketch_2x2\<lparr>count := [[11, 22], [33, 298]]\<rparr>))"
    by (simp_all add: Merge_def Merge_cell_def two_sketches_def sketch_2x2_def
        sketch_2x2_other_def shape_ok_def upt_rec)
  have r: "shape_ok sketch_2x2"
    "ReadFrom sketch_2x2 [0,0,0,0,0,0,0,2, 0,0,0,0,0,0,0,1, 0,0,0,0,0,0,0,9, 1,2] =
       Inr ((0, Some ErrUnexpectedEOF), sketch_2x2\<lparr>d := 2, w := 1, count := [[9], [0]]\<rparr>, [])"
    by (simp add: shape_ok_def sketch_2x2_def, code_simp)
  have j: "length (Count \<lparr>D = 1, W = 2, Count = [[7, 9]]\<rparr>) = unat (D \<lparr>D = 1, W = 2, Count = [[7, 9 :: uint64]]\<rparr>) \<and>
           (\<forall>row \<in> set (Count \<lparr>D = 1, W = 2, Count = [[7, 9 :: uint64]]\<rparr>).
              length row = unat (W \<lparr>D = 1, W = 2, Count = [[7, 9 :: uint64]]\<rparr>))"
    by simp
  note t = C9_shape_invariant[where dd = 2 and ww = 2
      and sn = "sketch_1x1\<lparr>d := 2, w := 2, count := [[0, 0], [0, 0]]\<rparr>" and en = None
      and su = sketch_full and key = "[0x61]" and a = 1 and su' = "sketch_full\<lparr>count := [[0]]\<rparr>"
      and se = sketch_full and v = "0xFFFFFFFFFFFFFFFF" and se' = sketch_full
      and h = two_sketches and pa = 0 and pb = 1 and em = None
      and h' = "two_sketches(0 \<mapsto> sketch_2x2\<lparr>count := [[11, 22], [33, 298]]\<rparr>)"
      and sr = sketch_2x2
      and stream = "[0,0,0,0,0,0,0,2, 0,0,0,0,0,0,0,1, 0,0,0,0,0,0,0,9, 1,2]"
      and res = "(0, Some ErrUnexpectedEOF)"
      and sr' = "sketch_2x2\<lparr>d := 2, w := 1, count := [[9], [0]]\<rparr>" and rest = "[]"
      and sj = sketch_1x1 and err = EOF and j = "\<lparr>D = 1, W = 2, Count = [[7, 9]]\<rparr>"]
  have c1: "shape_ok (sketch_1x1\<lparr>d := 2, w := 2, count := [[0, 0], [0, 0]]\<rparr>)"
    by (rule mp[OF t[THEN conjunct1] n])
  have c2: "shape_ok (sketch_full\<lparr>count := [[0]]\<rparr>)"
    by (rule mp[OF t[THEN conjunct2, THEN conjunct1]]) (intro conjI u)
  have c4: "\<forall>p S. (two_sketches(0 \<mapsto> sketch_2x2\<lparr>count := [[11, 22], [33, 298]]\<rparr>)) p = Some S \<longrightarrow>
              shape_ok S"
    by (rule mp[OF t[THEN conjunct2, THEN conjunct2, THEN conjunct2, THEN conjunct1]])
      (intro conjI m(1) m(2))
  have c4': "shape_ok (sketch_2x2\<lparr>count := [[11, 22], [33, 298]]\<rparr>)"
    by (rule c4[rule_format, of 0]) simp
  have c5: "shape_ok (sketch_2x2\<lparr>d := 2, w := 1, count := [[9], [0]]\<rparr>)"
    by (rule mp[OF t[THEN conjunct2, THEN conjunct2, THEN conjunct2, THEN conjunct2, THEN conjunct1]])
      (intro conjI r)
  have c7: "shape_ok (snd (UnmarshalJSON sketch_1x1 (Inr \<lparr>D = 1, W = 2, Count = [[7, 9]]\<rparr>)))"
    by (rule iffD2[OF t[THEN conjunct2, THEN conjunct2, THEN conjunct2, THEN conjunct2,
            THEN conjunct2, THEN conjunct2] j])
  show ?thesis
    by (intro conjI n c1 u(2) c2 e m(2) c4' r(2) c5 c7)
qed

text \<open>
  The claim as written fails for the payload \<^verbatim>\<open>{"d":2,"w":3,"count":[]}\<close>: after
  \<^verbatim>\<open>UnmarshalJSON\<close> the sketch has \<open>d * w = 6\<close> and no counter at all.
\<close>

theorem C9_counterexample:
  "UnmarshalJSON sketch_1x1 (Inr \<lparr>D = 2, W = 3, Count = []\<rparr>) =
     (None, \<lparr>d = 2, w = 3, count = [], hasher = fnv_New64\<rparr>) \<and>
   shape_ok sketch_1x1 \<and>
   \<not> shape_ok \<lparr>d = 2, w = 3, count = [], hasher = fnv_New64\<rparr> \<and>
   length (count \<lparr>d = 2, w = 3, count = [], hasher = fnv_New64\<rparr>) = 0 \<and>
   unat (d \<lparr>d = 2, w = 3, count = [], hasher = fnv_New64\<rparr> * w \<lparr>d = 2, w = 3, count = [], hasher = fnv_New64\<rparr>) = 6"
  by (simp add: UnmarshalJSON_def sketch_1x1_def shape_ok_def)

section \<open>Construction with a zero dimension\<close>

text \<open>
  Claim C7. In the matrix variant, \<^verbatim>\<open>New(d, w)\<close> with \<open>d = 0\<close> or \<open>w = 0\<close> returns
  a nil sketch (nothing is allocated: the check comes first) and the error
  "values of d and w should both be greater than 0".
\<close>

theorem C7_New_rejects_zero:
  assumes "dd = 0 \<or> ww = 0"
  shows "New dd ww =
         (None, Some (Error ''countminsketch: values of d and w should both be greater than 0''))"
  using assms by (auto simp: New_def)

theorem C7_New_rejects_zero_witness:
  "New 0 20 =
     (None, Some (Error ''countminsketch: values of d and w should both be greater than 0'')) \<and>
   New 4 0 =
     (None, Some (Error ''countminsketch: values of d and w should both be greater than 0''))"
  using C7_New_rejects_zero[of 0 20] C7_New_rejects_zero[of 4 0] by simp

text \<open>
  The flat-array variant's \<^verbatim>\<open>New\<close> has no such check: with a zero dimension
  \<^verbatim>\<open>int32(d*w)\<close> is 0, both range tests pass, and a sketch with an empty
  counter slice is returned without error (its \<^verbatim>\<open>NewFromFile\<close> starts from
  \<^verbatim>\<open>New(0, 0)\<close>).
\<close>

theorem C7_counterexample:
  "New_flat 0 0 = (Some \<lparr>d_flat = 0, w_flat = 0, count_flat = [], hasher_flat = fnv_New64\<rparr>, None) \<and>
   New_flat 0 20 = (Some \<lparr>d_flat = 0, w_flat = 20, count_flat = [], hasher_flat = fnv_New64\<rparr>, None)"
  by code_simp


end
